theory Spec2Isabelle
  imports Main
begin

section \<open>The lock registry of RaceLock and the timers it relies on\<close>

text \<open>
  The registry is the closure \<^verbatim>\<open>GlobalLock\<close>: a JavaScript \<^verbatim>\<open>Map\<close> from keys to lock
  records, together with the timers of the Node.js runtime that \<^verbatim>\<open>start\<close> schedules and
  \<^verbatim>\<open>end\<close>, \<^verbatim>\<open>clearAllLocks\<close> cancel. All of it is explicit state here: the map, the
  table of pending timers, the counter that names the next timer, the clock read by
  \<^verbatim>\<open>Date.now()\<close>, and what was written to the console.

  \<^verbatim>\<open>waitForUnlock\<close> only reads the map through \<^verbatim>\<open>isLocked\<close> and is left out.

  Numbers are integers (milliseconds), keys and owners are strings. For the owner, whose
  default is \<^verbatim>\<open>null\<close>, \<open>None\<close> is \<^verbatim>\<open>null\<close>, passed or left out. For the timeout, the
  metadata, the number of attempts and the initial delay, \<open>None\<close> is an argument that the
  caller leaves out (\<^verbatim>\<open>undefined\<close>), and \<open>dflt\<close> puts the default of the parameter list
  in its place. JavaScript applies a default to \<^verbatim>\<open>undefined\<close> only: a call that passes
  \<^verbatim>\<open>null\<close> for one of these four is not covered by the model.
\<close>

subsection \<open>Data\<close>

type_synonym key = string
type_synonym metadata = "(string \<times> string) list"
type_synonym handle = nat

record lockInfo =
  timestamp :: int
  meta :: metadata
  ownerId :: "string option"
  timeoutId :: "handle option"

text \<open>
  Two closures are ever handed to \<^verbatim>\<open>setTimeout\<close>: the expiry of a lock, which captures the
  key, and the resolver \<^verbatim>\<open>r\<close> of the promise on which \<^verbatim>\<open>retryStart\<close> waits.
\<close>

datatype callback = Expire key | Resume

record timer =
  tid :: handle
  due :: int
  callback :: callback

datatype diagnostic =
    AutoReleased key
  | NonOwner key "string option" "string option"
  | AttemptFailed key nat int
  | RetryExhausted key int
  | AllCleared

record state =
  locks :: "(key \<times> lockInfo) list"
  timers :: "timer list"
  nextTimerId :: handle
  now :: int
  console :: "(int \<times> diagnostic) list"

definition initial :: "int \<Rightarrow> state" where
  "initial t0 = \<lparr>locks = [], timers = [], nextTimerId = 0, now = t0, console = []\<rparr>"

definition dflt :: "'a \<Rightarrow> 'a option \<Rightarrow> 'a" where
  "dflt d a = (case a of None \<Rightarrow> d | Some v \<Rightarrow> v)"

subsection \<open>The JavaScript Map, in insertion order\<close>

definition map_has :: "(key \<times> 'v) list \<Rightarrow> key \<Rightarrow> bool" where
  "map_has m k = (map_of m k \<noteq> None)"

definition map_get :: "(key \<times> 'v) list \<Rightarrow> key \<Rightarrow> 'v option" where
  "map_get m k = map_of m k"

fun map_set :: "(key \<times> 'v) list \<Rightarrow> key \<Rightarrow> 'v \<Rightarrow> (key \<times> 'v) list" where
  "map_set [] k v = [(k, v)]"
| "map_set (p # ps) k v = (if fst p = k then (k, v) # ps else p # map_set ps k v)"

definition map_delete :: "(key \<times> 'v) list \<Rightarrow> key \<Rightarrow> (key \<times> 'v) list" where
  "map_delete m k = filter (\<lambda>p. fst p \<noteq> k) m"

subsection \<open>Console and timers of the runtime\<close>

text \<open>Every line written to the console is kept with the time at which it was written.\<close>

definition console_write :: "diagnostic \<Rightarrow> state \<Rightarrow> state" where
  "console_write d s = s\<lparr>console := console s @ [(now s, d)]\<rparr>"

text \<open>
  Node.js runs a timer after at least one millisecond: a delay below 1 or above
  \<open>2^31 - 1\<close> is replaced by 1.
\<close>

definition timer_delay :: "int \<Rightarrow> int" where
  "timer_delay d = (if d < 1 \<or> 2147483647 < d then 1 else d)"

definition setTimeout :: "callback \<Rightarrow> int \<Rightarrow> state \<Rightarrow> handle \<times> state" where
  "setTimeout cb d s =
     (nextTimerId s,
      s\<lparr>timers := timers s @ [\<lparr>tid = nextTimerId s, due = now s + timer_delay d, callback = cb\<rparr>],
        nextTimerId := Suc (nextTimerId s)\<rparr>)"

definition clearTimeout :: "handle \<Rightarrow> state \<Rightarrow> state" where
  "clearTimeout i s = s\<lparr>timers := filter (\<lambda>t. tid t \<noteq> i) (timers s)\<rparr>"

subsection \<open>start, end, isLocked, forceUnlock\<close>

definition isLocked :: "key \<Rightarrow> state \<Rightarrow> bool" where
  "isLocked k s = map_has (locks s) k"

definition getLockCount :: "state \<Rightarrow> nat" where
  "getLockCount s = length (locks s)"

definition getAllLockedKeys :: "state \<Rightarrow> key list" where
  "getAllLockedKeys s = map fst (locks s)"

definition start :: "key \<Rightarrow> int option \<Rightarrow> metadata option \<Rightarrow> string option \<Rightarrow> state \<Rightarrow> bool \<times> state" where
  "start k timeoutArg metaArg owner s =
     (if map_has (locks s) k then (False, s)
      else
        (let lock = \<lparr>timestamp = now s, meta = dflt [] metaArg, ownerId = owner, timeoutId = None\<rparr>
         in if 0 < dflt 0 timeoutArg then
              (case setTimeout (Expire k) (dflt 0 timeoutArg) s of
                 (i, s1) \<Rightarrow> (True, s1\<lparr>locks := map_set (locks s1) k (lock\<lparr>timeoutId := Some i\<rparr>)\<rparr>))
            else (True, s\<lparr>locks := map_set (locks s) k lock\<rparr>)))"

text \<open>
  \<^verbatim>\<open>end\<close> is a keyword of the theory language, so the function is \<open>end_lock\<close>. The handle
  that \<^verbatim>\<open>setTimeout\<close> returns in Node.js is an object, so the test \<^verbatim>\<open>if (lock.timeoutId)\<close>
  is the test that the field is not \<^verbatim>\<open>null\<close>.
\<close>

definition end_lock :: "key \<Rightarrow> string option \<Rightarrow> state \<Rightarrow> state" where
  "end_lock k owner s =
     (case map_get (locks s) k of
        None \<Rightarrow> s
      | Some lock \<Rightarrow>
          if owner \<noteq> None \<and> ownerId lock \<noteq> owner
          then console_write (NonOwner k owner (ownerId lock)) s
          else
            (case (case timeoutId lock of Some i \<Rightarrow> clearTimeout i s | None \<Rightarrow> s) of
               s1 \<Rightarrow> s1\<lparr>locks := map_delete (locks s1) k\<rparr>))"

definition forceUnlock :: "key \<Rightarrow> state \<Rightarrow> state" where
  "forceUnlock k s = end_lock k None s"

definition getLockInfo :: "key \<Rightarrow> state \<Rightarrow> (int \<times> metadata \<times> string option) option" where
  "getLockInfo k s =
     (case map_get (locks s) k of
        Some lock \<Rightarrow> Some (timestamp lock, meta lock, ownerId lock)
      | None \<Rightarrow> None)"

definition clearAllLocks :: "state \<Rightarrow> state" where
  "clearAllLocks s =
     console_write AllCleared
       ((fold (\<lambda>p s1. case timeoutId (snd p) of Some i \<Rightarrow> clearTimeout i s1 | None \<Rightarrow> s1)
           (locks s) s)\<lparr>locks := []\<rparr>)"

subsection \<open>The event loop: a pending timer runs\<close>

text \<open>
  The callback of an expiry timer is the arrow function in \<^verbatim>\<open>start\<close>: it deletes the key
  and warns. The runtime takes the timer out of its table, moves the clock to the time the
  timer was due (never backwards) and runs the callback.
\<close>

fun run_callback :: "callback \<Rightarrow> state \<Rightarrow> state" where
  "run_callback (Expire k) s = console_write (AutoReleased k) (s\<lparr>locks := map_delete (locks s) k\<rparr>)"
| "run_callback Resume s = s"

definition fire :: "handle \<Rightarrow> state \<Rightarrow> state" where
  "fire i s =
     (case find (\<lambda>t. tid t = i) (timers s) of
        None \<Rightarrow> s
      | Some t \<Rightarrow>
          run_callback (callback t)
            (s\<lparr>timers := filter (\<lambda>u. tid u \<noteq> i) (timers s), now := max (now s) (due t)\<rparr>))"

text \<open>The timer that is due first runs first; among equals, the one set first.\<close>

definition next_timer :: "state \<Rightarrow> timer option" where
  "next_timer s =
     (case timers s of
        [] \<Rightarrow> None
      | t # ts \<Rightarrow> Some (fold (\<lambda>u b. if due u < due b then u else b) ts t))"

text \<open>
  A task that awaits the timer \<open>i\<close> is suspended while the event loop runs the pending
  timers in order, until \<open>i\<close> itself has run. No other task is modelled. If no timer is
  left the task never resumes: the result is \<open>None\<close>.
\<close>

function await_timer :: "handle \<Rightarrow> state \<Rightarrow> state option" where
  "await_timer i s =
     (case next_timer s of
        None \<Rightarrow> None
      | Some t \<Rightarrow>
          if tid t = i then Some (fire (tid t) s) else await_timer i (fire (tid t) s))"
  by pat_completeness auto
termination
proof (relation "measure (\<lambda>(i, s). length (timers s))")
  show "wf (measure (\<lambda>(i, s). length (timers s)))" by simp
next
  fix i :: handle and s :: state and t :: timer
  assume nt: "next_timer s = Some t"
  have mem: "fold (\<lambda>u b. if due u < due b then u else b) ts b \<in> set (b # ts)"
    for ts :: "timer list" and b
    by (induction ts arbitrary: b) (auto split: if_splits)
  from nt mem have t_in: "t \<in> set (timers s)"
    by (auto simp: next_timer_def split: list.splits)
  then obtain u where u: "find (\<lambda>u. tid u = tid t) (timers s) = Some u"
    by (cases "find (\<lambda>u. tid u = tid t) (timers s)") (auto simp: find_None_iff)
  have tm: "timers (run_callback c s') = timers s'" for c s'
    by (cases c) (simp_all add: console_write_def)
  have "length (filter (\<lambda>u. tid u \<noteq> tid t) (timers s)) < length (timers s)"
    using t_in by (intro length_filter_less) auto
  with u tm show "((i, fire (tid t) s), (i, s)) \<in> measure (\<lambda>(i, s). length (timers s))"
    by (simp add: fire_def)
qed

subsection \<open>retryStart\<close>

text \<open>
  \<^verbatim>\<open>await new Promise((r) => setTimeout(r, delay))\<close>: the task sets a timer that resolves
  the promise and is suspended until that timer has run.
\<close>

definition sleep :: "int \<Rightarrow> state \<Rightarrow> state option" where
  "sleep d s = (case setTimeout Resume d s of (i, s1) \<Rightarrow> await_timer i s1)"

text \<open>The \<^verbatim>\<open>for\<close> loop of \<^verbatim>\<open>retryStart\<close>, from the index \<open>i\<close> on.\<close>

function retry_loop ::
  "key \<Rightarrow> int \<Rightarrow> int \<Rightarrow> int \<Rightarrow> metadata \<Rightarrow> string option \<Rightarrow> nat \<Rightarrow> state \<Rightarrow> (bool \<times> state) option" where
  "retry_loop k attempts initialDelay timeout md owner i s =
     (if int i < attempts then
        (case start k (Some timeout) (Some md) owner s of
           (True, s1) \<Rightarrow> Some (True, s1)
         | (False, s1) \<Rightarrow>
             (case sleep (initialDelay * 2 ^ i)
                     (console_write (AttemptFailed k (i + 1) (initialDelay * 2 ^ i)) s1) of
                None \<Rightarrow> None
              | Some s2 \<Rightarrow> retry_loop k attempts initialDelay timeout md owner (i + 1) s2))
      else Some (False, console_write (RetryExhausted k attempts) s))"
  by pat_completeness auto
termination
  by (relation "measure (\<lambda>(k, attempts, initialDelay, timeout, md, owner, i, s). nat (attempts - int i))")
    auto

definition retryStart ::
  "key \<Rightarrow> int option \<Rightarrow> int option \<Rightarrow> int option \<Rightarrow> metadata option \<Rightarrow> string option \<Rightarrow> state
    \<Rightarrow> (bool \<times> state) option" where
  "retryStart k attemptsArg initialDelayArg timeoutArg metaArg owner s =
     retry_loop k (dflt 5 attemptsArg) (dflt 100 initialDelayArg) (dflt 5000 timeoutArg)
       (dflt [] metaArg) owner 0 s"

subsection \<open>States the registry can be in\<close>

text \<open>
  The registry starts empty. From then on callers invoke its operations, time passes, a
  pending timer runs, and \<^verbatim>\<open>retryStart\<close> writes to the console and sets its wake-up timer.
\<close>

inductive reachable :: "state \<Rightarrow> bool" where
  r_initial: "reachable (initial t0)"
| r_start: "reachable s \<Longrightarrow> reachable (snd (start k t m ow s))"
| r_end: "reachable s \<Longrightarrow> reachable (end_lock k ow s)"
| r_clear: "reachable s \<Longrightarrow> reachable (clearAllLocks s)"
| r_fire: "reachable s \<Longrightarrow> reachable (fire i s)"
| r_tick: "reachable s \<Longrightarrow> 0 \<le> d \<Longrightarrow> reachable (s\<lparr>now := now s + d\<rparr>)"
| r_console: "reachable s \<Longrightarrow> reachable (console_write c s)"
| r_wake: "reachable s \<Longrightarrow> reachable (snd (setTimeout Resume d s))"

text \<open>
  The handles of the pending timers that would expire the key, and the handle stored in the
  record of the key.
\<close>

definition expiry_handles :: "key \<Rightarrow> state \<Rightarrow> handle list" where
  "expiry_handles k s = map tid (filter (\<lambda>t. callback t = Expire k) (timers s))"

definition held_handle :: "key \<Rightarrow> state \<Rightarrow> handle list" where
  "held_handle k s =
     (case map_get (locks s) k of
        None \<Rightarrow> []
      | Some lock \<Rightarrow> (case timeoutId lock of None \<Rightarrow> [] | Some i \<Rightarrow> [i]))"

text \<open>
  What keeps timers and records together: the handles of the pending timers are distinct
  and below the counter, the keys of the map are distinct, a record that stores a handle
  has the pending expiry timer of its key under that handle, and a pending expiry timer
  belongs to the record of its key.
\<close>

definition consistent :: "(key \<times> lockInfo) list \<Rightarrow> timer list \<Rightarrow> handle \<Rightarrow> bool" where
  "consistent L T n \<longleftrightarrow>
     distinct (map tid T) \<and> (\<forall>t\<in>set T. tid t < n) \<and> distinct (map fst L)
     \<and> (\<forall>k l i. (k, l) \<in> set L \<and> timeoutId l = Some i
           \<longrightarrow> (\<exists>t\<in>set T. tid t = i \<and> callback t = Expire k))
     \<and> (\<forall>t\<in>set T. \<forall>k. callback t = Expire k
           \<longrightarrow> (\<exists>l. (k, l) \<in> set L \<and> timeoutId l = Some (tid t)))"

abbreviation timers_ok :: "state \<Rightarrow> bool" where
  "timers_ok s \<equiv> consistent (locks s) (timers s) (nextTimerId s)"

declare await_timer.simps [simp del]
declare retry_loop.simps [simp del]

section \<open>Acquiring a lock\<close>

lemma map_set_absent: "\<not> map_has m k \<Longrightarrow> map_set m k v = m @ [(k, v)]"
  by (induction m) (auto simp: map_has_def)

lemma map_has_snoc: "map_has (m @ [(k, v)]) k"
  by (simp add: map_has_def)

lemma map_get_snoc: "\<not> map_has m k \<Longrightarrow> map_get (m @ [(k, v)]) k = Some v"
  by (simp add: map_has_def map_get_def map_add_def)

text \<open>
  C1. If the key is not in the registry, \<^verbatim>\<open>start\<close> returns true and stores one new record
  under the key, with the current time, the given metadata and owner; afterwards
  \<^verbatim>\<open>isLocked\<close> is true for the key.
\<close>

theorem start_free_key:
  assumes "\<not> isLocked k s"
  shows "fst (start k t m ow s) = True
    \<and> isLocked k (snd (start k t m ow s))
    \<and> (\<exists>l. map_get (locks (snd (start k t m ow s))) k = Some l
          \<and> timestamp l = now s \<and> meta l = dflt [] m \<and> ownerId l = ow
          \<and> locks (snd (start k t m ow s)) = locks s @ [(k, l)])
    \<and> getLockCount (snd (start k t m ow s)) = Suc (getLockCount s)"
  using assms
  by (simp add: start_def isLocked_def setTimeout_def Let_def map_has_snoc map_get_snoc
      map_set_absent getLockCount_def)

theorem start_free_key_witness:
  "\<not> isLocked ''job'' (initial 0)
   \<and> fst (start ''job'' (Some 3000) None (Some ''w1'') (initial 0)) = True
   \<and> isLocked ''job'' (snd (start ''job'' (Some 3000) None (Some ''w1'') (initial 0)))
   \<and> getLockCount (snd (start ''job'' (Some 3000) None (Some ''w1'') (initial 0))) = 1"
proof -
  have free: "\<not> isLocked ''job'' (initial 0)"
    by (simp add: isLocked_def map_has_def initial_def)
  from start_free_key [OF free, of "Some 3000" None "Some ''w1''"] free
  show ?thesis by (simp add: getLockCount_def initial_def)
qed

text \<open>
  C2. If the key is in the registry, \<^verbatim>\<open>start\<close> returns false and changes nothing: the map
  (hence the record with its timestamp, metadata and owner), the pending timers, the timer
  counter and the console are the ones before the call.
\<close>

theorem start_locked_key:
  assumes "isLocked k s"
  shows "start k t m ow s = (False, s)"
  using assms by (simp add: start_def isLocked_def)

theorem start_locked_key_witness:
  "isLocked ''job'' (snd (start ''job'' (Some 3000) None (Some ''w1'') (initial 0)))
   \<and> start ''job'' (Some 10) (Some [(''a'', ''b'')]) (Some ''w2'')
        (snd (start ''job'' (Some 3000) None (Some ''w1'') (initial 0)))
      = (False, snd (start ''job'' (Some 3000) None (Some ''w1'') (initial 0)))"
proof -
  have held: "isLocked ''job'' (snd (start ''job'' (Some 3000) None (Some ''w1'') (initial 0)))"
    by (simp add: start_def isLocked_def setTimeout_def map_has_def initial_def dflt_def)
  from start_locked_key [OF held] held show ?thesis by simp
qed

section \<open>Releasing a lock\<close>

lemma map_has_delete: "\<not> map_has (map_delete m k) k"
  by (induction m) (auto simp: map_has_def map_delete_def)

lemma map_get_has: "map_get m k = Some v \<Longrightarrow> map_has m k"
  by (simp add: map_get_def map_has_def)

lemma locks_clearTimeout: "locks (clearTimeout i s) = locks s"
  by (simp add: clearTimeout_def)

lemma timers_clearTimeout: "timers (clearTimeout i s) = filter (\<lambda>t. tid t \<noteq> i) (timers s)"
  by (simp add: clearTimeout_def)

lemma locks_end_release:
  "map_get (locks s) k = Some l \<Longrightarrow> ow = None \<or> ownerId l = ow \<Longrightarrow>
   locks (end_lock k ow s) = map_delete (locks s) k"
  by (auto simp: end_lock_def locks_clearTimeout split: option.splits)

lemma timers_end_release:
  "map_get (locks s) k = Some l \<Longrightarrow> ow = None \<or> ownerId l = ow \<Longrightarrow>
   timers (end_lock k ow s) =
     (case timeoutId l of None \<Rightarrow> timers s | Some i \<Rightarrow> filter (\<lambda>t. tid t \<noteq> i) (timers s))"
  by (auto simp: end_lock_def timers_clearTimeout split: option.splits)

lemma end_refused:
  "map_get (locks s) k = Some l \<Longrightarrow> ownerId l \<noteq> Some b \<Longrightarrow>
   end_lock k (Some b) s = console_write (NonOwner k (Some b) (ownerId l)) s"
  by (auto simp: end_lock_def)

lemma end_absent: "map_get (locks s) k = None \<Longrightarrow> end_lock k ow s = s"
  by (simp add: end_lock_def)

text \<open>
  C3 (as amended). For a lock whose record stores no owner, \<^verbatim>\<open>end\<close> without an owner removes
  the record, and \<^verbatim>\<open>end\<close> with any owner \<open>b\<close> is refused: the guard
  \<^verbatim>\<open>ownerId !== null && lock.ownerId !== ownerId\<close> compares \<open>b\<close> with the stored
  \<^verbatim>\<open>null\<close>. Only the diagnostic is written; record and timers stay and the key stays locked.
\<close>

theorem end_unowned_record:
  assumes "map_get (locks s) k = Some l" and "ownerId l = None"
  shows "\<not> isLocked k (end_lock k None s)
    \<and> end_lock k (Some b) s = console_write (NonOwner k (Some b) None) s
    \<and> locks (end_lock k (Some b) s) = locks s
    \<and> timers (end_lock k (Some b) s) = timers s
    \<and> isLocked k (end_lock k (Some b) s)"
proof -
  have "locks (end_lock k None s) = map_delete (locks s) k"
    using assms(1) by (rule locks_end_release) simp
  then have released: "\<not> isLocked k (end_lock k None s)"
    by (simp add: isLocked_def map_has_delete)
  have refused: "end_lock k (Some b) s = console_write (NonOwner k (Some b) None) s"
    using end_refused [OF assms(1), of b] assms(2) by simp
  have "isLocked k s"
    using assms(1) by (simp add: isLocked_def map_get_has)
  with released refused show ?thesis
    by (simp add: console_write_def isLocked_def)
qed

text \<open>
  C3 as stated fails: after \<^verbatim>\<open>start("k")\<close> without an owner, \<^verbatim>\<open>end("k", "w2")\<close> leaves
  the key locked.
\<close>

theorem end_unowned_counterexample:
  "isLocked ''k'' (end_lock ''k'' (Some ''w2'') (snd (start ''k'' None None None (initial 0))))"
  by (simp add: end_lock_def start_def initial_def dflt_def map_get_def map_has_def
      isLocked_def console_write_def)

theorem end_unowned_record_witness:
  "\<not> isLocked ''k'' (end_lock ''k'' None (snd (start ''k'' (Some 50) None None (initial 0))))
   \<and> isLocked ''k'' (end_lock ''k'' (Some ''w2'') (snd (start ''k'' (Some 50) None None (initial 0))))
   \<and> timers (end_lock ''k'' (Some ''w2'') (snd (start ''k'' (Some 50) None None (initial 0))))
      = [\<lparr>tid = 0, due = 50, callback = Expire ''k''\<rparr>]"
proof -
  let ?s = "snd (start ''k'' (Some 50) None None (initial 0))"
  let ?l = "\<lparr>timestamp = 0, meta = [], ownerId = None, timeoutId = Some 0\<rparr>"
  have rec: "map_get (locks ?s) ''k'' = Some ?l"
    by (simp add: start_def initial_def dflt_def map_get_def map_has_def setTimeout_def)
  have own: "ownerId ?l = None" by simp
  have tm: "timers ?s = [\<lparr>tid = 0, due = 50, callback = Expire ''k''\<rparr>]"
    by (simp add: start_def initial_def dflt_def map_has_def setTimeout_def timer_delay_def)
  from end_unowned_record [OF rec own, of "''w2''"] show ?thesis
    unfolding tm [symmetric] by blast
qed

text \<open>
  C5. If the record of a locked key stores an owner other than \<open>b\<close> (or none), then
  \<^verbatim>\<open>end(k, b)\<close> is refused: it only writes the diagnostic. The map and the pending timers,
  the expiry timer of the record among them, are unchanged and the key stays locked.
\<close>

theorem end_wrong_owner:
  assumes "map_get (locks s) k = Some l" and "ownerId l \<noteq> Some b"
  shows "end_lock k (Some b) s = console_write (NonOwner k (Some b) (ownerId l)) s
    \<and> locks (end_lock k (Some b) s) = locks s
    \<and> timers (end_lock k (Some b) s) = timers s
    \<and> isLocked k (end_lock k (Some b) s)"
proof -
  have "isLocked k s"
    using assms(1) by (simp add: isLocked_def map_get_has)
  with end_refused [OF assms] show ?thesis
    by (simp add: console_write_def isLocked_def)
qed

theorem end_wrong_owner_witness:
  "isLocked ''k'' (end_lock ''k'' (Some ''w2'') (snd (start ''k'' (Some 50) None (Some ''w1'') (initial 0))))
   \<and> timers (end_lock ''k'' (Some ''w2'') (snd (start ''k'' (Some 50) None (Some ''w1'') (initial 0))))
      = [\<lparr>tid = 0, due = 50, callback = Expire ''k''\<rparr>]"
proof -
  let ?s = "snd (start ''k'' (Some 50) None (Some ''w1'') (initial 0))"
  let ?l = "\<lparr>timestamp = 0, meta = [], ownerId = Some ''w1'', timeoutId = Some 0\<rparr>"
  have rec: "map_get (locks ?s) ''k'' = Some ?l"
    by (simp add: start_def initial_def dflt_def map_get_def map_has_def setTimeout_def)
  have own: "ownerId ?l \<noteq> Some ''w2''" by simp
  have tm: "timers ?s = [\<lparr>tid = 0, due = 50, callback = Expire ''k''\<rparr>]"
    by (simp add: start_def initial_def dflt_def map_has_def setTimeout_def timer_delay_def)
  from end_wrong_owner [OF rec own] show ?thesis
    unfolding tm [symmetric] by blast
qed

text \<open>
  C9. If the record of a locked key stores an owner, \<^verbatim>\<open>end(k)\<close> without an owner skips
  the ownership check and removes the record.
\<close>

theorem end_without_owner:
  assumes "map_get (locks s) k = Some l" and "ownerId l = Some a"
  shows "\<not> isLocked k (end_lock k None s)
    \<and> locks (end_lock k None s) = map_delete (locks s) k"
proof -
  have "locks (end_lock k None s) = map_delete (locks s) k"
    using assms(1) by (rule locks_end_release) simp
  then show ?thesis
    by (simp add: isLocked_def map_has_delete)
qed

theorem end_without_owner_witness:
  "\<not> isLocked ''k'' (end_lock ''k'' None (snd (start ''k'' (Some 50) None (Some ''w1'') (initial 0))))
   \<and> locks (end_lock ''k'' None (snd (start ''k'' (Some 50) None (Some ''w1'') (initial 0)))) = []"
proof -
  let ?s = "snd (start ''k'' (Some 50) None (Some ''w1'') (initial 0))"
  let ?l = "\<lparr>timestamp = 0, meta = [], ownerId = Some ''w1'', timeoutId = Some 0\<rparr>"
  have rec: "map_get (locks ?s) ''k'' = Some ?l"
    by (simp add: start_def initial_def dflt_def map_get_def map_has_def setTimeout_def)
  have own: "ownerId ?l = Some ''w1''" by simp
  have lk: "locks ?s = [(''k'', ?l)]"
    by (simp add: start_def initial_def dflt_def map_has_def setTimeout_def)
  from end_without_owner [OF rec own] lk show ?thesis by (simp add: map_delete_def)
qed

text \<open>
  C6. \<^verbatim>\<open>forceUnlock(k)\<close> leaves the key unlocked whatever owner the record stores; the
  record is deleted and the timer whose handle it stores is no longer pending; if the key
  is not locked, nothing changes.
\<close>

theorem forceUnlock_clears:
  "\<not> isLocked k (forceUnlock k s)
   \<and> (\<forall>l i. map_get (locks s) k = Some l \<and> timeoutId l = Some i
         \<longrightarrow> i \<notin> tid ` set (timers (forceUnlock k s)))
   \<and> (\<forall>l. map_get (locks s) k = Some l
         \<longrightarrow> locks (forceUnlock k s) = map_delete (locks s) k)
   \<and> (\<not> isLocked k s \<longrightarrow> forceUnlock k s = s)"
proof (cases "map_get (locks s) k")
  case None
  then have "forceUnlock k s = s"
    by (simp add: forceUnlock_def end_absent)
  with None show ?thesis
    by (simp add: isLocked_def map_has_def map_get_def)
next
  case (Some l)
  have lk: "locks (forceUnlock k s) = map_delete (locks s) k"
    unfolding forceUnlock_def using Some by (rule locks_end_release) simp
  have tm: "timers (forceUnlock k s) =
      (case timeoutId l of None \<Rightarrow> timers s | Some i \<Rightarrow> filter (\<lambda>t. tid t \<noteq> i) (timers s))"
    unfolding forceUnlock_def using Some by (rule timers_end_release) simp
  have "isLocked k s"
    using Some by (simp add: isLocked_def map_get_has)
  with Some lk tm show ?thesis
    by (auto simp: isLocked_def map_has_delete)
qed

theorem forceUnlock_clears_witness:
  "forceUnlock ''k'' (snd (start ''k'' (Some 50) None (Some ''w1'') (initial 0)))
     = \<lparr>locks = [], timers = [], nextTimerId = 1, now = 0, console = []\<rparr>
   \<and> forceUnlock ''j'' (snd (start ''k'' (Some 50) None (Some ''w1'') (initial 0)))
     = snd (start ''k'' (Some 50) None (Some ''w1'') (initial 0))"
proof -
  let ?s = "snd (start ''k'' (Some 50) None (Some ''w1'') (initial 0))"
  let ?l = "\<lparr>timestamp = 0, meta = [], ownerId = Some ''w1'', timeoutId = Some 0\<rparr>"
  have st: "?s = \<lparr>locks = [(''k'', ?l)], timers = [\<lparr>tid = 0, due = 50, callback = Expire ''k''\<rparr>],
      nextTimerId = 1, now = 0, console = []\<rparr>"
    by (simp add: start_def initial_def dflt_def map_has_def setTimeout_def timer_delay_def)
  have free: "\<not> isLocked ''j'' ?s"
    by (simp add: st isLocked_def map_has_def)
  have rec: "map_get (locks ?s) ''k'' = Some ?l \<and> timeoutId ?l = Some 0"
    by (simp add: st map_get_def)
  have "forceUnlock ''j'' ?s = ?s"
    using forceUnlock_clears [of "''j''" ?s] free by blast
  moreover have "forceUnlock ''k'' ?s = \<lparr>locks = [], timers = [], nextTimerId = 1, now = 0, console = []\<rparr>"
    by (simp add: st forceUnlock_def end_lock_def map_get_def clearTimeout_def map_delete_def)
  ultimately show ?thesis by simp
qed

section \<open>Timers and records stay together\<close>

lemma consistent_ids: "consistent L T n \<Longrightarrow> distinct (map tid T)"
  by (simp add: consistent_def)

lemma consistent_fresh: "consistent L T n \<Longrightarrow> t \<in> set T \<Longrightarrow> tid t < n"
  by (simp add: consistent_def)

lemma consistent_keys: "consistent L T n \<Longrightarrow> distinct (map fst L)"
  by (simp add: consistent_def)

lemma consistent_timer:
  "consistent L T n \<Longrightarrow> (k, l) \<in> set L \<Longrightarrow> timeoutId l = Some i \<Longrightarrow>
   \<exists>t\<in>set T. tid t = i \<and> callback t = Expire k"
  unfolding consistent_def by blast

lemma consistent_record:
  "consistent L T n \<Longrightarrow> t \<in> set T \<Longrightarrow> callback t = Expire k \<Longrightarrow>
   \<exists>l. (k, l) \<in> set L \<and> timeoutId l = Some (tid t)"
  unfolding consistent_def by blast

lemma same_tid: "distinct (map tid T) \<Longrightarrow> t \<in> set T \<Longrightarrow> u \<in> set T \<Longrightarrow> tid t = tid u \<Longrightarrow> t = u"
  by (meson distinct_map inj_onD)

lemma same_key: "distinct (map fst L) \<Longrightarrow> (k, l) \<in> set L \<Longrightarrow> (k, l') \<in> set L \<Longrightarrow> l = l'"
  by (meson eq_key_imp_eq_value)

lemma consistent_empty: "consistent [] [] n"
  by (simp add: consistent_def)

lemma consistent_add_plain:
  assumes ok: "consistent L T n" and free: "k \<notin> fst ` set L" and plain: "timeoutId l = None"
  shows "consistent (L @ [(k, l)]) T n"
  unfolding consistent_def
proof (intro conjI allI ballI impI)
  show "distinct (map tid T)" using ok by (rule consistent_ids)
  show "tid t < n" if "t \<in> set T" for t using ok that by (rule consistent_fresh)
  show "distinct (map fst (L @ [(k, l)]))" using consistent_keys [OF ok] free by simp
  show "\<exists>t\<in>set T. tid t = i \<and> callback t = Expire k'"
    if "(k', l') \<in> set (L @ [(k, l)]) \<and> timeoutId l' = Some i" for k' l' i
  proof -
    from that plain have "(k', l') \<in> set L" by auto
    with ok that show ?thesis by (blast dest: consistent_timer)
  qed
  show "\<exists>l'. (k', l') \<in> set (L @ [(k, l)]) \<and> timeoutId l' = Some (tid t)"
    if "t \<in> set T" "callback t = Expire k'" for t k'
    using consistent_record [OF ok that] by auto
qed

lemma consistent_add_timed:
  assumes ok: "consistent L T n" and free: "k \<notin> fst ` set L" and timed: "timeoutId l = Some n"
  shows "consistent (L @ [(k, l)]) (T @ [\<lparr>tid = n, due = d, callback = Expire k\<rparr>]) (Suc n)"
  unfolding consistent_def
proof (intro conjI allI ballI impI)
  let ?new = "\<lparr>tid = n, due = d, callback = Expire k\<rparr>"
  have old: "tid t < n" if "t \<in> set T" for t using ok that by (rule consistent_fresh)
  then have "n \<notin> tid ` set T" by auto
  then show "distinct (map tid (T @ [?new]))"
    using consistent_ids [OF ok] by simp
  show "tid t < Suc n" if "t \<in> set (T @ [?new])" for t
    using that old by (auto simp: less_Suc_eq)
  show "distinct (map fst (L @ [(k, l)]))" using consistent_keys [OF ok] free by simp
  show "\<exists>t\<in>set (T @ [?new]). tid t = i \<and> callback t = Expire k'"
    if "(k', l') \<in> set (L @ [(k, l)]) \<and> timeoutId l' = Some i" for k' l' i
  proof (cases "(k', l') \<in> set L")
    case True
    with ok that obtain t where "t \<in> set T" "tid t = i" "callback t = Expire k'"
      by (blast dest: consistent_timer)
    then show ?thesis by auto
  next
    case False
    with that timed have "k' = k" "i = n" by auto
    then show ?thesis by simp
  qed
  show "\<exists>l'. (k', l') \<in> set (L @ [(k, l)]) \<and> timeoutId l' = Some (tid t)"
    if "t \<in> set (T @ [?new])" "callback t = Expire k'" for t k'
  proof (cases "t \<in> set T")
    case True
    from consistent_record [OF ok True that(2)] show ?thesis by auto
  next
    case False
    with that have "t = ?new" by simp
    with that(2) timed show ?thesis by auto
  qed
qed

lemma consistent_add_resume:
  assumes ok: "consistent L T n"
  shows "consistent L (T @ [\<lparr>tid = n, due = d, callback = Resume\<rparr>]) (Suc n)"
  unfolding consistent_def
proof (intro conjI allI ballI impI)
  let ?new = "\<lparr>tid = n, due = d, callback = Resume\<rparr>"
  have old: "tid t < n" if "t \<in> set T" for t using ok that by (rule consistent_fresh)
  then have "n \<notin> tid ` set T" by auto
  then show "distinct (map tid (T @ [?new]))"
    using consistent_ids [OF ok] by simp
  show "tid t < Suc n" if "t \<in> set (T @ [?new])" for t
    using that old by (auto simp: less_Suc_eq)
  show "distinct (map fst L)" using ok by (rule consistent_keys)
  show "\<exists>t\<in>set (T @ [?new]). tid t = i \<and> callback t = Expire k'"
    if "(k', l') \<in> set L \<and> timeoutId l' = Some i" for k' l' i
  proof -
    from ok that obtain t where "t \<in> set T" "tid t = i" "callback t = Expire k'"
      by (blast dest: consistent_timer)
    then show ?thesis by auto
  qed
  show "\<exists>l'. (k', l') \<in> set L \<and> timeoutId l' = Some (tid t)"
    if "t \<in> set (T @ [?new])" "callback t = Expire k'" for t k'
  proof -
    from that have "t \<in> set T" by auto
    from consistent_record [OF ok this that(2)] show ?thesis .
  qed
qed

text \<open>Removing the record of a key together with the timers that carry a given set of handles.\<close>

lemma consistent_remove:
  assumes ok: "consistent L T n"
    and gone: "\<And>t. t \<in> set T \<Longrightarrow> callback t = Expire k \<Longrightarrow> tid t \<in> H"
    and kept: "\<And>t k'. t \<in> set T \<Longrightarrow> callback t = Expire k' \<Longrightarrow> k' \<noteq> k \<Longrightarrow> tid t \<notin> H"
  shows "consistent (filter (\<lambda>p. fst p \<noteq> k) L) (filter (\<lambda>t. tid t \<notin> H) T) n"
  unfolding consistent_def
proof (intro conjI allI ballI impI)
  show "distinct (map tid (filter (\<lambda>t. tid t \<notin> H) T))"
    using consistent_ids [OF ok] by (rule distinct_map_filter)
  show "tid t < n" if "t \<in> set (filter (\<lambda>t. tid t \<notin> H) T)" for t
    using consistent_fresh [OF ok, of t] that by simp
  show "distinct (map fst (filter (\<lambda>p. fst p \<noteq> k) L))"
    using consistent_keys [OF ok] by (rule distinct_map_filter)
  show "\<exists>t\<in>set (filter (\<lambda>t. tid t \<notin> H) T). tid t = i \<and> callback t = Expire k'"
    if "(k', l') \<in> set (filter (\<lambda>p. fst p \<noteq> k) L) \<and> timeoutId l' = Some i" for k' l' i
  proof -
    from that have mem: "(k', l') \<in> set L" and ne: "k' \<noteq> k" and i: "timeoutId l' = Some i"
      by auto
    from consistent_timer [OF ok mem i] obtain t
      where t: "t \<in> set T" "tid t = i" "callback t = Expire k'" by blast
    with kept [OF t(1) t(3) ne] show ?thesis by auto
  qed
  show "\<exists>l'. (k', l') \<in> set (filter (\<lambda>p. fst p \<noteq> k) L) \<and> timeoutId l' = Some (tid t)"
    if "t \<in> set (filter (\<lambda>t. tid t \<notin> H) T)" "callback t = Expire k'" for t k'
  proof -
    from that have t: "t \<in> set T" "tid t \<notin> H" by auto
    with gone [OF t(1)] that(2) have "k' \<noteq> k" by auto
    with consistent_record [OF ok t(1) that(2)] show ?thesis by auto
  qed
qed

lemma consistent_release:
  assumes ok: "consistent L T n" and rec: "(k, l) \<in> set L"
  shows "consistent (filter (\<lambda>p. fst p \<noteq> k) L)
           (case timeoutId l of None \<Rightarrow> T | Some i \<Rightarrow> filter (\<lambda>t. tid t \<noteq> i) T) n"
proof -
  let ?H = "case timeoutId l of None \<Rightarrow> {} | Some i \<Rightarrow> {i}"
  have own: "timeoutId l = Some (tid t)" if "t \<in> set T" "callback t = Expire k" for t
  proof -
    from consistent_record [OF ok that] obtain l'
      where "(k, l') \<in> set L" "timeoutId l' = Some (tid t)" by blast
    with same_key [OF consistent_keys [OF ok] rec] show ?thesis by auto
  qed
  have "consistent (filter (\<lambda>p. fst p \<noteq> k) L) (filter (\<lambda>t. tid t \<notin> ?H) T) n"
  proof (rule consistent_remove [OF ok])
    show "tid t \<in> ?H" if "t \<in> set T" "callback t = Expire k" for t
      using own [OF that] by simp
    show "tid t \<notin> ?H" if "t \<in> set T" "callback t = Expire k'" "k' \<noteq> k" for t k'
    proof
      assume "tid t \<in> ?H"
      then have i: "timeoutId l = Some (tid t)" by (cases "timeoutId l") auto
      from consistent_timer [OF ok rec i] obtain u
        where u: "u \<in> set T" "tid u = tid t" "callback u = Expire k" by blast
      from same_tid [OF consistent_ids [OF ok] u(1) that(1) u(2)] u(3) that(2,3)
      show False by simp
    qed
  qed
  then show ?thesis by (cases "timeoutId l") simp_all
qed

lemma consistent_fire_expire:
  assumes ok: "consistent L T n" and pending: "t \<in> set T" and cb: "callback t = Expire k"
  shows "consistent (filter (\<lambda>p. fst p \<noteq> k) L) (filter (\<lambda>u. tid u \<noteq> tid t) T) n"
proof -
  from consistent_record [OF ok pending cb] obtain l
    where rec: "(k, l) \<in> set L" and i: "timeoutId l = Some (tid t)" by blast
  from consistent_release [OF ok rec] i show ?thesis by simp
qed

lemma consistent_fire_resume:
  assumes ok: "consistent L T n" and pending: "t \<in> set T" and cb: "callback t = Resume"
  shows "consistent L (filter (\<lambda>u. tid u \<noteq> tid t) T) n"
  unfolding consistent_def
proof (intro conjI allI ballI impI)
  show "distinct (map tid (filter (\<lambda>u. tid u \<noteq> tid t) T))"
    using consistent_ids [OF ok] by (rule distinct_map_filter)
  show "tid u < n" if "u \<in> set (filter (\<lambda>u. tid u \<noteq> tid t) T)" for u
    using consistent_fresh [OF ok, of u] that by simp
  show "distinct (map fst L)" using ok by (rule consistent_keys)
  show "\<exists>u\<in>set (filter (\<lambda>u. tid u \<noteq> tid t) T). tid u = i \<and> callback u = Expire k"
    if "(k, l) \<in> set L \<and> timeoutId l = Some i" for k l i
  proof -
    from ok that obtain u where u: "u \<in> set T" "tid u = i" "callback u = Expire k"
      by (blast dest: consistent_timer)
    with cb have "tid u \<noteq> tid t"
      using same_tid [OF consistent_ids [OF ok] u(1) pending] by auto
    with u show ?thesis by auto
  qed
  show "\<exists>l. (k, l) \<in> set L \<and> timeoutId l = Some (tid u)"
    if "u \<in> set (filter (\<lambda>u. tid u \<noteq> tid t) T)" "callback u = Expire k" for u k
  proof -
    from that have "u \<in> set T" by simp
    from consistent_record [OF ok this that(2)] show ?thesis .
  qed
qed

lemma consistent_clear:
  assumes ok: "consistent L T n"
  shows "consistent [] (filter (\<lambda>t. Some (tid t) \<notin> (\<lambda>p. timeoutId (snd p)) ` set L) T) n"
  unfolding consistent_def
proof (intro conjI allI ballI impI)
  let ?T = "filter (\<lambda>t. Some (tid t) \<notin> (\<lambda>p. timeoutId (snd p)) ` set L) T"
  show "distinct (map tid ?T)"
    using consistent_ids [OF ok] by (rule distinct_map_filter)
  show "tid u < n" if "u \<in> set ?T" for u
    using consistent_fresh [OF ok, of u] that by simp
  show "distinct (map fst ([] :: (key \<times> lockInfo) list))" by simp
  show "\<exists>u\<in>set ?T. tid u = i \<and> callback u = Expire k"
    if "(k, l) \<in> set [] \<and> timeoutId l = Some i" for k and l :: lockInfo and i
    using that by simp
  show "\<exists>l::lockInfo. (k, l) \<in> set [] \<and> timeoutId l = Some (tid u)"
    if "u \<in> set ?T" "callback u = Expire k" for u k
  proof -
    from that have u: "u \<in> set T" "Some (tid u) \<notin> (\<lambda>p. timeoutId (snd p)) ` set L" by auto
    from consistent_record [OF ok u(1) that(2)] obtain l
      where "(k, l) \<in> set L" "timeoutId l = Some (tid u)" by blast
    then have "Some (tid u) \<in> (\<lambda>p. timeoutId (snd p)) ` set L" by force
    with u(2) show ?thesis by simp
  qed
qed

lemma filter_single:
  "distinct xs \<Longrightarrow> x \<in> set xs \<Longrightarrow> (\<And>y. y \<in> set xs \<Longrightarrow> P y \<longleftrightarrow> y = x) \<Longrightarrow> filter P xs = [x]"
proof (induction xs)
  case Nil
  then show ?case by simp
next
  case (Cons a xs)
  show ?case
  proof (cases "a = x")
    case True
    with Cons.prems have "\<forall>y\<in>set xs. \<not> P y" by auto
    then have "filter P xs = []" by (simp add: filter_empty_conv)
    with True Cons.prems show ?thesis by simp
  next
    case False
    with Cons.prems have "filter P xs = [x]" by (intro Cons.IH) auto
    with False Cons.prems show ?thesis by auto
  qed
qed

lemma consistent_handles:
  assumes ok: "consistent L T n"
  shows "map tid (filter (\<lambda>t. callback t = Expire k) T) =
     (case map_of L k of None \<Rightarrow> []
      | Some l \<Rightarrow> (case timeoutId l of None \<Rightarrow> [] | Some i \<Rightarrow> [i]))"
proof (cases "map_of L k")
  case None
  then have "k \<notin> fst ` set L" by (simp add: map_of_eq_None_iff)
  then have "\<forall>t\<in>set T. callback t \<noteq> Expire k"
    using consistent_record [OF ok] by force
  then have "filter (\<lambda>t. callback t = Expire k) T = []" by (simp add: filter_empty_conv)
  with None show ?thesis by simp
next
  case (Some l)
  then have rec: "(k, l) \<in> set L" by (rule map_of_SomeD)
  have own: "timeoutId l = Some (tid t)" if "t \<in> set T" "callback t = Expire k" for t
  proof -
    from consistent_record [OF ok that] obtain l'
      where "(k, l') \<in> set L" "timeoutId l' = Some (tid t)" by blast
    with same_key [OF consistent_keys [OF ok] rec] show ?thesis by auto
  qed
  show ?thesis
  proof (cases "timeoutId l")
    case None
    with own have "\<forall>t\<in>set T. callback t \<noteq> Expire k" by auto
    then have "filter (\<lambda>t. callback t = Expire k) T = []" by (simp add: filter_empty_conv)
    with Some None show ?thesis by simp
  next
    case (Some i)
    from consistent_timer [OF ok rec Some] obtain u
      where u: "u \<in> set T" "tid u = i" "callback u = Expire k" by blast
    have "filter (\<lambda>t. callback t = Expire k) T = [u]"
    proof (rule filter_single)
      show "distinct T" using consistent_ids [OF ok] by (simp add: distinct_map)
      show "u \<in> set T" by (rule u(1))
      show "callback y = Expire k \<longleftrightarrow> y = u" if "y \<in> set T" for y
      proof
        assume "callback y = Expire k"
        from own [OF that this] Some u(2) have "tid y = tid u" by simp
        from same_tid [OF consistent_ids [OF ok] that u(1) this] show "y = u" .
      next
        assume "y = u"
        with u(3) show "callback y = Expire k" by simp
      qed
    qed
    with \<open>map_of L k = Some l\<close> Some u(2) show ?thesis by simp
  qed
qed

lemma map_has_keys: "map_has m k \<longleftrightarrow> k \<in> fst ` set m"
  by (simp add: map_has_def map_of_eq_None_iff)

lemma start_ok:
  assumes ok: "timers_ok s"
  shows "timers_ok (snd (start k t m ow s))"
proof (cases "map_has (locks s) k")
  case True
  with ok show ?thesis by (simp add: start_def)
next
  case False
  then have free: "k \<notin> fst ` set (locks s)" by (simp add: map_has_keys)
  show ?thesis
  proof (cases "0 < dflt 0 t")
    case True
    with False consistent_add_timed [OF ok free] show ?thesis
      by (simp add: start_def setTimeout_def map_set_absent)
  next
    case nontimed: False
    with False consistent_add_plain [OF ok free] show ?thesis
      by (simp add: start_def map_set_absent)
  qed
qed

lemma end_ok:
  assumes ok: "timers_ok s"
  shows "timers_ok (end_lock k ow s)"
proof (cases "map_get (locks s) k")
  case None
  with ok show ?thesis by (simp add: end_lock_def)
next
  case (Some l)
  then have rec: "(k, l) \<in> set (locks s)" by (simp add: map_get_def map_of_SomeD)
  show ?thesis
  proof (cases "ow \<noteq> None \<and> ownerId l \<noteq> ow")
    case True
    with Some ok show ?thesis by (simp add: end_lock_def console_write_def)
  next
    case False
    with Some consistent_release [OF ok rec] show ?thesis
      by (cases "timeoutId l") (auto simp: end_lock_def clearTimeout_def map_delete_def)
  qed
qed

lemma fire_ok:
  assumes ok: "timers_ok s"
  shows "timers_ok (fire i s)"
proof (cases "find (\<lambda>t. tid t = i) (timers s)")
  case None
  with ok show ?thesis by (simp add: fire_def)
next
  case (Some t)
  then have t: "t \<in> set (timers s)" "tid t = i"
    by (auto simp: find_Some_iff)
  show ?thesis
  proof (cases "callback t")
    case (Expire k)
    with Some t(2) consistent_fire_expire [OF ok t(1) Expire] show ?thesis
      by (simp add: fire_def console_write_def map_delete_def)
  next
    case Resume
    with Some t(2) consistent_fire_resume [OF ok t(1) Resume] show ?thesis
      by (simp add: fire_def)
  qed
qed

lemma fold_clearTimeout:
  "fold (\<lambda>p s1. case timeoutId (snd p) of Some i \<Rightarrow> clearTimeout i s1 | None \<Rightarrow> s1) L s
     = s\<lparr>timers := filter (\<lambda>t. Some (tid t) \<notin> (\<lambda>p. timeoutId (snd p)) ` set L) (timers s)\<rparr>"
proof (induction L arbitrary: s)
  case Nil
  show ?case by simp
next
  case (Cons p L)
  show ?case
  proof (cases "timeoutId (snd p)")
    case None
    then show ?thesis by (simp add: Cons.IH)
  next
    case (Some i)
    have "filter (\<lambda>t. Some (tid t) \<notin> (\<lambda>p. timeoutId (snd p)) ` set L) (filter (\<lambda>t. tid t \<noteq> i) (timers s))
        = filter (\<lambda>t. Some (tid t) \<notin> (\<lambda>p. timeoutId (snd p)) ` set (p # L)) (timers s)"
      using Some by (auto intro: filter_cong)
    with Some show ?thesis by (simp add: Cons.IH clearTimeout_def)
  qed
qed

lemma clear_ok:
  assumes ok: "timers_ok s"
  shows "timers_ok (clearAllLocks s)"
  using consistent_clear [OF ok]
  by (simp add: clearAllLocks_def fold_clearTimeout console_write_def)

lemma reachable_ok: "reachable s \<Longrightarrow> timers_ok s"
proof (induction rule: reachable.induct)
  case (r_initial t0)
  show ?case by (simp add: initial_def consistent_empty)
next
  case (r_start s k t m ow)
  then show ?case by (simp add: start_ok)
next
  case (r_end s k ow)
  then show ?case by (simp add: end_ok)
next
  case (r_clear s)
  then show ?case by (simp add: clear_ok)
next
  case (r_fire s i)
  then show ?case by (simp add: fire_ok)
next
  case (r_tick s d)
  then show ?case by simp
next
  case (r_console s c)
  then show ?case by (simp add: console_write_def)
next
  case (r_wake s d)
  from consistent_add_resume [OF r_wake.IH] show ?case by (simp add: setTimeout_def)
qed

lemma reachable_handles: "reachable s \<Longrightarrow> expiry_handles k s = held_handle k s"
  using consistent_handles [OF reachable_ok]
  by (simp add: expiry_handles_def held_handle_def map_get_def)

lemma end_unlocks: "\<not> isLocked k (end_lock k None s)"
proof (cases "map_get (locks s) k")
  case None
  then show ?thesis by (simp add: end_absent isLocked_def map_has_def map_get_def)
next
  case (Some l)
  then have "locks (end_lock k None s) = map_delete (locks s) k"
    by (rule locks_end_release) simp
  then show ?thesis by (simp add: isLocked_def map_has_delete)
qed

lemma unlocked_no_expiry:
  assumes "reachable s" and "\<not> isLocked k s"
  shows "expiry_handles k s = []"
  using reachable_handles [OF assms(1), of k] assms(2)
  by (simp add: held_handle_def isLocked_def map_has_def map_get_def)

lemma start_timed:
  assumes "\<not> isLocked k s" and "0 < t"
  shows "snd (start k (Some t) m ow s) =
     s\<lparr>timers := timers s @ [\<lparr>tid = nextTimerId s, due = now s + timer_delay t, callback = Expire k\<rparr>],
       nextTimerId := Suc (nextTimerId s),
       locks := locks s @ [(k, \<lparr>timestamp = now s, meta = dflt [] m, ownerId = ow,
                                timeoutId = Some (nextTimerId s)\<rparr>)]\<rparr>"
    and "fst (start k (Some t) m ow s)"
  using assms by (simp_all add: start_def isLocked_def setTimeout_def map_set_absent dflt_def)

lemma start_untimed:
  assumes "\<not> isLocked k s" and "dflt 0 t \<le> 0"
  shows "snd (start k t m ow s) =
     s\<lparr>locks := locks s @ [(k, \<lparr>timestamp = now s, meta = dflt [] m, ownerId = ow,
                                timeoutId = None\<rparr>)]\<rparr>"
  using assms by (simp add: start_def isLocked_def map_set_absent)

lemma fire_pending_expiry:
  assumes ok: "timers_ok s" and t: "t \<in> set (timers s)" and cb: "callback t = Expire k"
  shows "locks (fire (tid t) s) = map_delete (locks s) k"
proof -
  obtain u where u: "find (\<lambda>u. tid u = tid t) (timers s) = Some u"
    using t by (cases "find (\<lambda>u. tid u = tid t) (timers s)") (auto simp: find_None_iff)
  then have "u \<in> set (timers s)" "tid u = tid t" by (auto simp: find_Some_iff)
  with same_tid [OF consistent_ids [OF ok] _ t] have "u = t" by simp
  with u cb show ?thesis by (simp add: fire_def console_write_def)
qed

text \<open>
  C7. In every state the registry can reach, the pending expiry timers of a key are exactly
  the handle stored in the record of the key: one timer for a record made with a positive
  timeout, none for a record without a handle, none for a key that is not locked. So a new
  record with a positive timeout has exactly one pending expiry, and after each removal
  (\<^verbatim>\<open>end\<close>, \<^verbatim>\<open>forceUnlock\<close>, the expiry running, \<^verbatim>\<open>clearAllLocks\<close>) no expiry of the
  key is pending any more; after \<^verbatim>\<open>clearAllLocks\<close> the count is 0.
\<close>

theorem expiry_timer_exactly_once:
  assumes "reachable s"
  shows "expiry_handles k s = held_handle k s
    \<and> (\<not> isLocked k s \<longrightarrow> expiry_handles k s = [])
    \<and> (\<not> isLocked k s \<and> 0 < t
          \<longrightarrow> expiry_handles k (snd (start k (Some t) m ow s)) = [nextTimerId s])
    \<and> (\<not> isLocked k (end_lock k ow s) \<longrightarrow> expiry_handles k (end_lock k ow s) = [])
    \<and> expiry_handles k (forceUnlock k s) = []
    \<and> (\<forall>x\<in>set (timers s). callback x = Expire k
          \<longrightarrow> \<not> isLocked k (fire (tid x) s) \<and> expiry_handles k (fire (tid x) s) = [])
    \<and> getLockCount (clearAllLocks s) = 0
    \<and> expiry_handles k (clearAllLocks s) = []"
proof (intro conjI impI ballI)
  show "expiry_handles k s = held_handle k s"
    using assms by (rule reachable_handles)
  show "expiry_handles k s = []" if "\<not> isLocked k s"
    using assms that by (rule unlocked_no_expiry)
  show "expiry_handles k (snd (start k (Some t) m ow s)) = [nextTimerId s]"
    if "\<not> isLocked k s \<and> 0 < t"
  proof -
    from that have free: "\<not> isLocked k s" and pos: "0 < t" by auto
    have "reachable (snd (start k (Some t) m ow s))"
      using assms by (rule r_start)
    then have "expiry_handles k (snd (start k (Some t) m ow s))
        = held_handle k (snd (start k (Some t) m ow s))"
      by (rule reachable_handles)
    also have "\<dots> = [nextTimerId s]"
      using free by (simp add: start_timed(1) [OF free pos] held_handle_def map_get_snoc isLocked_def)
    finally show ?thesis .
  qed
  show "expiry_handles k (end_lock k ow s) = []" if "\<not> isLocked k (end_lock k ow s)"
    using r_end [OF assms] that by (rule unlocked_no_expiry)
  show "expiry_handles k (forceUnlock k s) = []"
    unfolding forceUnlock_def using r_end [OF assms] end_unlocks by (rule unlocked_no_expiry)
  have fired: "\<not> isLocked k (fire (tid x) s)" if "x \<in> set (timers s)" "callback x = Expire k" for x
    using fire_pending_expiry [OF reachable_ok [OF assms] that]
    by (simp add: isLocked_def map_has_delete)
  show "\<not> isLocked k (fire (tid x) s)" if "x \<in> set (timers s)" "callback x = Expire k" for x
    using that by (rule fired)
  show "expiry_handles k (fire (tid x) s) = []" if "x \<in> set (timers s)" "callback x = Expire k" for x
    using r_fire [OF assms] fired [OF that] by (rule unlocked_no_expiry)
  have cleared: "locks (clearAllLocks s) = []"
    by (simp add: clearAllLocks_def console_write_def)
  then show "getLockCount (clearAllLocks s) = 0"
    by (simp add: getLockCount_def)
  from cleared have "\<not> isLocked k (clearAllLocks s)"
    by (simp add: isLocked_def map_has_def)
  with r_clear [OF assms] show "expiry_handles k (clearAllLocks s) = []"
    by (rule unlocked_no_expiry)
qed

theorem expiry_timer_exactly_once_witness:
  "reachable (snd (start ''k'' (Some 50) None (Some ''w1'') (initial 0)))
   \<and> expiry_handles ''k'' (snd (start ''k'' (Some 50) None (Some ''w1'') (initial 0))) = [0]
   \<and> expiry_handles ''j'' (snd (start ''j'' (Some 10) None None
        (snd (start ''k'' (Some 50) None (Some ''w1'') (initial 0))))) = [1]
   \<and> expiry_handles ''k'' (forceUnlock ''k'' (snd (start ''k'' (Some 50) None (Some ''w1'') (initial 0)))) = []
   \<and> expiry_handles ''k'' (fire 0 (snd (start ''k'' (Some 50) None (Some ''w1'') (initial 0)))) = []
   \<and> getLockCount (clearAllLocks (snd (start ''k'' (Some 50) None (Some ''w1'') (initial 0)))) = 0
   \<and> expiry_handles ''k'' (clearAllLocks (snd (start ''k'' (Some 50) None (Some ''w1'') (initial 0)))) = []"
proof -
  let ?s = "snd (start ''k'' (Some 50) None (Some ''w1'') (initial 0))"
  let ?x = "\<lparr>tid = 0, due = 50, callback = Expire ''k''\<rparr>"
  have st: "?s = \<lparr>locks = [(''k'', \<lparr>timestamp = 0, meta = [], ownerId = Some ''w1'', timeoutId = Some 0\<rparr>)],
      timers = [?x], nextTimerId = 1, now = 0, console = []\<rparr>"
    by (simp add: start_def initial_def dflt_def map_has_def setTimeout_def timer_delay_def)
  have r: "reachable ?s"
    by (rule r_start) (rule r_initial)
  have held: "held_handle ''k'' ?s = [0]"
    by (simp add: st held_handle_def map_get_def)
  have free: "\<not> isLocked ''j'' ?s \<and> (0::int) < 10"
    by (simp add: st isLocked_def map_has_def)
  have next_id: "nextTimerId ?s = 1"
    by (simp add: st)
  have pending: "?x \<in> set (timers ?s)" "callback ?x = Expire ''k''" "tid ?x = 0"
    by (simp_all add: st)
  note main = expiry_timer_exactly_once [OF r]
  from main [of "''k''"] held have a: "expiry_handles ''k'' ?s = [0]"
    by simp
  from main [of "''j''" 10 None None] free next_id
  have b: "expiry_handles ''j'' (snd (start ''j'' (Some 10) None None ?s)) = [1]"
    by simp
  from main [of "''k''"] have c: "expiry_handles ''k'' (forceUnlock ''k'' ?s) = []"
    and e: "getLockCount (clearAllLocks ?s) = 0"
    and f: "expiry_handles ''k'' (clearAllLocks ?s) = []"
    by blast+
  from main [of "''k''"] pending(1,2)
  have "expiry_handles ''k'' (fire (tid ?x) ?s) = []"
    by blast
  then have d: "expiry_handles ''k'' (fire 0 ?s) = []"
    by (simp only: pending(3))
  from r a b c d e f show ?thesis by blast
qed

text \<open>
  C10. \<^verbatim>\<open>start\<close> with a timeout \<open>t \<le> 0\<close> does what it does with timeout 0 and with the
  timeout left out: on a free key no timer is set, the stored record has no handle, and in
  a reachable state no expiry of the key is pending afterwards.
\<close>

theorem start_nonpositive_timeout:
  assumes "t \<le> 0"
  shows "start k (Some t) m ow s = start k (Some 0) m ow s
    \<and> start k (Some t) m ow s = start k None m ow s
    \<and> (\<not> isLocked k s \<longrightarrow>
          timers (snd (start k (Some t) m ow s)) = timers s
          \<and> nextTimerId (snd (start k (Some t) m ow s)) = nextTimerId s
          \<and> (\<exists>l. map_get (locks (snd (start k (Some t) m ow s))) k = Some l \<and> timeoutId l = None))
    \<and> (reachable s \<and> \<not> isLocked k s \<longrightarrow> expiry_handles k (snd (start k (Some t) m ow s)) = [])"
proof (intro conjI impI)
  show "start k (Some t) m ow s = start k (Some 0) m ow s"
    using assms by (simp add: start_def dflt_def)
  show "start k (Some t) m ow s = start k None m ow s"
    using assms by (simp add: start_def dflt_def)
  have nonpos: "dflt 0 (Some t) \<le> 0"
    using assms by (simp add: dflt_def)
  show "timers (snd (start k (Some t) m ow s)) = timers s" if "\<not> isLocked k s"
    by (simp add: start_untimed [OF that nonpos])
  show "nextTimerId (snd (start k (Some t) m ow s)) = nextTimerId s" if "\<not> isLocked k s"
    by (simp add: start_untimed [OF that nonpos])
  show "\<exists>l. map_get (locks (snd (start k (Some t) m ow s))) k = Some l \<and> timeoutId l = None"
    if "\<not> isLocked k s"
    using that by (simp add: start_untimed [OF that nonpos] map_get_snoc isLocked_def)
  show "expiry_handles k (snd (start k (Some t) m ow s)) = []" if "reachable s \<and> \<not> isLocked k s"
  proof -
    from that have r: "reachable s" and free: "\<not> isLocked k s" by auto
    have "expiry_handles k (snd (start k (Some t) m ow s)) = held_handle k (snd (start k (Some t) m ow s))"
      using r_start [OF r] by (rule reachable_handles)
    also have "\<dots> = []"
      using free by (simp add: start_untimed [OF free nonpos] held_handle_def map_get_snoc isLocked_def)
    finally show ?thesis .
  qed
qed

theorem start_nonpositive_timeout_witness:
  "(-5::int) \<le> 0
   \<and> start ''k'' (Some (-5)) None None (initial 0) = start ''k'' (Some 0) None None (initial 0)
   \<and> timers (snd (start ''k'' (Some (-5)) None None (initial 0))) = []
   \<and> expiry_handles ''k'' (snd (start ''k'' (Some (-5)) None None (initial 0))) = []"
proof -
  have neg: "(-5::int) \<le> 0" by simp
  have "\<not> isLocked ''k'' (initial 0)"
    by (simp add: isLocked_def map_has_def initial_def)
  with r_initial [of 0] have free: "reachable (initial 0) \<and> \<not> isLocked ''k'' (initial 0)"
    by blast
  have none: "timers (initial 0) = []"
    by (simp add: initial_def)
  from start_nonpositive_timeout [OF neg, of "''k''" None None "initial 0"] free neg
  show ?thesis unfolding none [symmetric] by blast
qed

section \<open>retryStart completes and stays within the reachable states\<close>

lemma timers_run_callback: "timers (run_callback c s) = timers s"
  by (cases c) (simp_all add: console_write_def)

lemma timers_fire_pending:
  "t \<in> set (timers s) \<Longrightarrow> timers (fire (tid t) s) = filter (\<lambda>u. tid u \<noteq> tid t) (timers s)"
  by (cases "find (\<lambda>u. tid u = tid t) (timers s)")
    (auto simp: fire_def timers_run_callback find_None_iff)

lemma next_timer_pending: "next_timer s = Some t \<Longrightarrow> t \<in> set (timers s)"
proof -
  have "fold (\<lambda>u b. if due u < due b then u else b) ts b \<in> set (b # ts)"
    for ts :: "timer list" and b
    by (induction ts arbitrary: b) (auto split: if_splits)
  then show "next_timer s = Some t \<Longrightarrow> t \<in> set (timers s)"
    by (auto simp: next_timer_def split: list.splits)
qed

lemma await_timer_returns:
  "i \<in> tid ` set (timers s) \<Longrightarrow> \<exists>s'. await_timer i s = Some s'"
proof (induction i s rule: await_timer.induct)
  case (1 i s)
  from "1.prems" obtain t where nt: "next_timer s = Some t"
    by (cases "timers s") (auto simp: next_timer_def)
  show ?case
  proof (cases "tid t = i")
    case True
    with nt show ?thesis by (subst await_timer.simps) simp
  next
    case False
    with "1.prems" have "i \<in> tid ` set (timers (fire (tid t) s))"
      by (auto simp: timers_fire_pending [OF next_timer_pending [OF nt]])
    from "1.IH" [OF nt False this] nt False show ?thesis
      by (subst await_timer.simps) simp
  qed
qed

lemma sleep_returns: "\<exists>s'. sleep d s = Some s'"
  using await_timer_returns [of "nextTimerId s" "snd (setTimeout Resume d s)"]
  by (simp add: sleep_def setTimeout_def)

lemma retry_loop_returns: "\<exists>r. retry_loop k attempts d t md ow i s = Some r"
proof (induction k attempts d t md ow i s rule: retry_loop.induct)
  case (1 k attempts d t md ow i s)
  show ?case
  proof (cases "int i < attempts")
    case False
    then show ?thesis by (subst retry_loop.simps) auto
  next
    case True
    obtain ok s1 where st: "start k (Some t) (Some md) ow s = (ok, s1)"
      by (cases "start k (Some t) (Some md) ow s")
    show ?thesis
    proof (cases ok)
      case True
      with \<open>int i < attempts\<close> st show ?thesis by (subst retry_loop.simps) auto
    next
      case False
      obtain s3 where sl: "sleep (d * 2 ^ i) (console_write (AttemptFailed k (i + 1) (d * 2 ^ i)) s1) = Some s3"
        using sleep_returns by blast
      from False st have "(False, s1) = start k (Some t) (Some md) ow s" by simp
      from "1.IH" [OF \<open>int i < attempts\<close> this _ sl] False \<open>int i < attempts\<close> st sl
      show ?thesis by (subst retry_loop.simps) auto
    qed
  qed
qed

lemma retryStart_returns: "\<exists>r. retryStart k a d t m ow s = Some r"
  unfolding retryStart_def by (rule retry_loop_returns)

lemma await_reachable:
  "reachable s \<Longrightarrow> await_timer i s = Some s' \<Longrightarrow> reachable s'"
proof (induction i s rule: await_timer.induct)
  case (1 i s)
  from "1.prems"(2) obtain t where nt: "next_timer s = Some t"
    by (subst (asm) await_timer.simps) (auto split: option.splits)
  have r: "reachable (fire (tid t) s)"
    using "1.prems"(1) by (rule r_fire)
  show ?case
  proof (cases "tid t = i")
    case True
    with nt "1.prems"(2) have "s' = fire (tid t) s"
      by (subst (asm) await_timer.simps) simp
    with r show ?thesis by simp
  next
    case False
    with nt "1.prems"(2) have "await_timer i (fire (tid t) s) = Some s'"
      by (subst (asm) await_timer.simps) simp
    with "1.IH" [OF nt False r] show ?thesis .
  qed
qed

lemma sleep_reachable:
  "reachable s \<Longrightarrow> sleep d s = Some s' \<Longrightarrow> reachable s'"
  using await_reachable [OF r_wake, of s "nextTimerId s" d s']
  by (simp add: sleep_def setTimeout_def)

lemma retry_loop_reachable:
  "reachable s \<Longrightarrow> retry_loop k attempts d t md ow i s = Some (b, s') \<Longrightarrow> reachable s'"
proof (induction k attempts d t md ow i s rule: retry_loop.induct)
  case (1 k attempts d t md ow i s)
  show ?case
  proof (cases "int i < attempts")
    case False
    with "1.prems"(2) have "s' = console_write (RetryExhausted k attempts) s"
      by (subst (asm) retry_loop.simps) simp
    with r_console [OF "1.prems"(1)] show ?thesis by simp
  next
    case True
    obtain ok s1 where st: "start k (Some t) (Some md) ow s = (ok, s1)"
      by (cases "start k (Some t) (Some md) ow s")
    then have r1: "reachable s1"
      using r_start [OF "1.prems"(1), of k "Some t" "Some md" ow] by simp
    show ?thesis
    proof (cases ok)
      case True
      with \<open>int i < attempts\<close> st "1.prems"(2) have "s' = s1"
        by (subst (asm) retry_loop.simps) simp
      with r1 show ?thesis by simp
    next
      case False
      let ?s2 = "console_write (AttemptFailed k (i + 1) (d * 2 ^ i)) s1"
      have r2: "reachable ?s2" using r1 by (rule r_console)
      from False \<open>int i < attempts\<close> st "1.prems"(2)
      obtain s3 where sl: "sleep (d * 2 ^ i) ?s2 = Some s3"
        and rest: "retry_loop k attempts d t md ow (i + 1) s3 = Some (b, s')"
        by (subst (asm) retry_loop.simps) (auto split: option.splits)
      from sleep_reachable [OF r2 sl] have r3: "reachable s3" .
      from False st have "(False, s1) = start k (Some t) (Some md) ow s" by simp
      from "1.IH" [OF \<open>int i < attempts\<close> this _ sl r3 rest] show ?thesis by simp
    qed
  qed
qed

lemma retryStart_reachable:
  "reachable s \<Longrightarrow> retryStart k a d t m ow s = Some (b, s') \<Longrightarrow> reachable s'"
  unfolding retryStart_def by (rule retry_loop_reachable)

section \<open>What retryStart does\<close>

lemma retry_first_attempt:
  assumes "\<not> isLocked k s" and "0 < attempts"
  shows "retry_loop k attempts d t md ow 0 s = Some (True, snd (start k (Some t) (Some md) ow s))"
proof -
  have "fst (start k (Some t) (Some md) ow s)"
    using assms(1) by (simp add: start_def isLocked_def setTimeout_def Let_def)
  then obtain s1 where "start k (Some t) (Some md) ow s = (True, s1)"
    by (cases "start k (Some t) (Some md) ow s") simp
  then show ?thesis
    using assms(2) by (subst retry_loop.simps) simp
qed

lemma find_snoc: "find P xs = None \<Longrightarrow> find P (xs @ [y]) = (if P y then Some y else None)"
  by (induction xs) (auto split: if_splits)

lemma fire_new_expiry:
  assumes ok: "timers_ok s"
  shows "locks (fire (nextTimerId s)
            (s\<lparr>timers := timers s @ [\<lparr>tid = nextTimerId s, due = d, callback = Expire k\<rparr>],
              nextTimerId := n, locks := L\<rparr>)) = map_delete L k"
proof -
  have "\<forall>t\<in>set (timers s). tid t \<noteq> nextTimerId s"
    using consistent_fresh [OF ok] by fastforce
  then have "find (\<lambda>t. tid t = nextTimerId s) (timers s) = None"
    by (simp add: find_None_iff)
  then show ?thesis
    by (simp add: fire_def find_snoc console_write_def)
qed

text \<open>
  A successful \<^verbatim>\<open>retryStart\<close> is a successful \<^verbatim>\<open>start\<close> with the same timeout, metadata
  and owner, on some state in which the key was free.
\<close>

lemma start_True_free: "start k t m ow s = (True, s1) \<Longrightarrow> \<not> isLocked k s"
  by (auto simp: start_def isLocked_def split: if_splits)

lemma retry_loop_acquired:
  "retry_loop k attempts d t md ow i s = Some (True, s') \<Longrightarrow>
   \<exists>s0. \<not> isLocked k s0 \<and> s' = snd (start k (Some t) (Some md) ow s0)
        \<and> (reachable s \<longrightarrow> reachable s0)"
proof (induction k attempts d t md ow i s rule: retry_loop.induct)
  case (1 k attempts d t md ow i s)
  show ?case
  proof (cases "int i < attempts")
    case False
    with "1.prems" show ?thesis
      by (subst (asm) retry_loop.simps) simp
  next
    case True
    obtain ok s1 where st: "start k (Some t) (Some md) ow s = (ok, s1)"
      by (cases "start k (Some t) (Some md) ow s")
    show ?thesis
    proof (cases ok)
      case True
      with \<open>int i < attempts\<close> st "1.prems" have "s' = s1"
        by (subst (asm) retry_loop.simps) simp
      moreover from True st have "\<not> isLocked k s"
        by (auto dest: start_True_free)
      ultimately show ?thesis using st by auto
    next
      case False
      let ?s2 = "console_write (AttemptFailed k (i + 1) (d * 2 ^ i)) s1"
      from False \<open>int i < attempts\<close> st "1.prems"
      obtain s3 where sl: "sleep (d * 2 ^ i) ?s2 = Some s3"
        and rest: "retry_loop k attempts d t md ow (i + 1) s3 = Some (True, s')"
        by (subst (asm) retry_loop.simps) (auto split: option.splits)
      from False st have eq: "(False, s1) = start k (Some t) (Some md) ow s" by simp
      from "1.IH" [OF \<open>int i < attempts\<close> eq _ sl rest]
      obtain s0 where s0: "\<not> isLocked k s0" "s' = snd (start k (Some t) (Some md) ow s0)"
        "reachable s3 \<longrightarrow> reachable s0" by auto
      have "reachable s3" if "reachable s"
      proof -
        from r_start [OF that, of k "Some t" "Some md" ow] st have "reachable s1" by simp
        then have "reachable ?s2" by (rule r_console)
        then show ?thesis using sl by (rule sleep_reachable)
      qed
      with s0 show ?thesis by blast
    qed
  qed
qed

lemma timed_start_expiry:
  assumes free: "\<not> isLocked k s0" and pos: "0 < t" "t \<le> 2147483647"
    and s': "s' = snd (start k (Some t) m ow s0)"
  shows "\<exists>l i T. map_get (locks s') k = Some l \<and> timestamp l = now s' \<and> timeoutId l = Some i
           \<and> held_handle k s' = [i]
           \<and> timers s' = T @ [\<lparr>tid = i, due = now s' + t, callback = Expire k\<rparr>]
           \<and> (reachable s0 \<longrightarrow> expiry_handles k s' = [i] \<and> \<not> isLocked k (fire i s'))"
proof -
  let ?l = "\<lparr>timestamp = now s0, meta = dflt [] m, ownerId = ow, timeoutId = Some (nextTimerId s0)\<rparr>"
  let ?x = "\<lparr>tid = nextTimerId s0, due = now s0 + t, callback = Expire k\<rparr>"
  have eq: "s' = s0\<lparr>timers := timers s0 @ [?x], nextTimerId := Suc (nextTimerId s0),
       locks := locks s0 @ [(k, ?l)]\<rparr>"
    using start_timed(1) [OF free pos(1), of m ow] pos s' by (simp add: timer_delay_def)
  have rec: "map_get (locks s') k = Some ?l"
    using free by (simp add: eq map_get_snoc isLocked_def)
  have held: "held_handle k s' = [nextTimerId s0]"
    using rec by (simp add: held_handle_def)
  have tm: "timers s' = timers s0 @ [\<lparr>tid = nextTimerId s0, due = now s' + t, callback = Expire k\<rparr>]"
    by (simp add: eq)
  have nw: "timestamp ?l = now s'"
    by (simp add: eq)
  have r: "expiry_handles k s' = [nextTimerId s0] \<and> \<not> isLocked k (fire (nextTimerId s0) s')"
    if "reachable s0"
  proof
    have "reachable s'" unfolding s' using that by (rule r_start)
    from reachable_handles [OF this, of k] held
    show "expiry_handles k s' = [nextTimerId s0]" by simp
    show "\<not> isLocked k (fire (nextTimerId s0) s')"
      using fire_new_expiry [OF reachable_ok [OF that]]
      by (simp add: eq isLocked_def map_has_delete)
  qed
  from rec nw held tm r show ?thesis
    by (intro exI [of _ ?l] exI [of _ "nextTimerId s0"] exI [of _ "timers s0"]) simp
qed

text \<open>
  C8 (as amended). The timeout of \<^verbatim>\<open>retryStart\<close> defaults to 5000: leaving it out is the
  same as passing 5000. Whenever such a call returns true, on whichever attempt, the record
  it stored carries the handle of an expiry timer due 5000 ms after the acquisition; from a
  reachable state that timer is the one pending expiry of the key, and when it runs the key
  is unlocked. On a free key, with at least one attempt, the call returns true at once.
\<close>

theorem retryStart_default_timeout:
  "retryStart k a d None m ow s = retryStart k a d (Some 5000) m ow s
   \<and> (retryStart k a d None m ow s = Some (True, s') \<longrightarrow>
        (\<exists>l i T. map_get (locks s') k = Some l \<and> timestamp l = now s' \<and> timeoutId l = Some i
           \<and> held_handle k s' = [i]
           \<and> timers s' = T @ [\<lparr>tid = i, due = now s' + 5000, callback = Expire k\<rparr>]
           \<and> (reachable s \<longrightarrow> expiry_handles k s' = [i] \<and> \<not> isLocked k (fire i s'))))
   \<and> (\<not> isLocked k s \<and> 0 < dflt 5 a \<longrightarrow>
        (\<exists>s1. retryStart k a d None m ow s = Some (True, s1)
           \<and> held_handle k s1 = [nextTimerId s]
           \<and> timers s1 = timers s @ [\<lparr>tid = nextTimerId s, due = now s + 5000, callback = Expire k\<rparr>]
           \<and> (reachable s \<longrightarrow> \<not> isLocked k (fire (nextTimerId s) s1))))"
proof (intro conjI impI)
  show "retryStart k a d None m ow s = retryStart k a d (Some 5000) m ow s"
    by (simp add: retryStart_def dflt_def)
next
  assume "retryStart k a d None m ow s = Some (True, s')"
  then have "retry_loop k (dflt 5 a) (dflt 100 d) 5000 (dflt [] m) ow 0 s = Some (True, s')"
    by (simp add: retryStart_def dflt_def)
  from retry_loop_acquired [OF this]
  obtain s0 where s0: "\<not> isLocked k s0" "s' = snd (start k (Some 5000) (Some (dflt [] m)) ow s0)"
    "reachable s \<longrightarrow> reachable s0" by blast
  from timed_start_expiry [OF s0(1) _ _ s0(2)] s0(3)
  show "\<exists>l i T. map_get (locks s') k = Some l \<and> timestamp l = now s' \<and> timeoutId l = Some i
           \<and> held_handle k s' = [i]
           \<and> timers s' = T @ [\<lparr>tid = i, due = now s' + 5000, callback = Expire k\<rparr>]
           \<and> (reachable s \<longrightarrow> expiry_handles k s' = [i] \<and> \<not> isLocked k (fire i s'))"
    by simp blast
next
  assume "\<not> isLocked k s \<and> 0 < dflt 5 a"
  then have free: "\<not> isLocked k s" and some: "0 < dflt 5 a" by auto
  let ?s' = "snd (start k (Some 5000) (Some (dflt [] m)) ow s)"
  have s': "?s' = s\<lparr>timers := timers s @ [\<lparr>tid = nextTimerId s, due = now s + 5000, callback = Expire k\<rparr>],
       nextTimerId := Suc (nextTimerId s),
       locks := locks s @ [(k, \<lparr>timestamp = now s, meta = dflt [] m, ownerId = ow,
                                timeoutId = Some (nextTimerId s)\<rparr>)]\<rparr>"
    using start_timed(1) [OF free, of 5000 "Some (dflt [] m)" ow]
    by (simp add: timer_delay_def dflt_def)
  have "retryStart k a d None m ow s = Some (True, ?s')"
    using retry_first_attempt [OF free some] by (simp add: retryStart_def dflt_def)
  moreover have "held_handle k ?s' = [nextTimerId s]"
    using free by (simp add: s' held_handle_def map_get_snoc isLocked_def)
  moreover have "timers ?s' = timers s @ [\<lparr>tid = nextTimerId s, due = now s + 5000, callback = Expire k\<rparr>]"
    by (simp add: s')
  moreover have "\<not> isLocked k (fire (nextTimerId s) ?s')" if "reachable s"
    using fire_new_expiry [OF reachable_ok [OF that]]
    by (simp add: s' isLocked_def map_has_delete)
  ultimately show "\<exists>s1. retryStart k a d None m ow s = Some (True, s1)
           \<and> held_handle k s1 = [nextTimerId s]
           \<and> timers s1 = timers s @ [\<lparr>tid = nextTimerId s, due = now s + 5000, callback = Expire k\<rparr>]
           \<and> (reachable s \<longrightarrow> \<not> isLocked k (fire (nextTimerId s) s1))"
    by blast
qed

text \<open>
  C8 as stated fails: \<^verbatim>\<open>retryStart("k")\<close> on the empty registry stores a record with an
  expiry timer due at 5000, which is not what timeout 0 gives, and once the timer has run
  the registry is empty again.
\<close>

theorem retryStart_default_timeout_counterexample:
  "retryStart ''k'' None None None None None (initial 0)
     = Some (True, \<lparr>locks = [(''k'', \<lparr>timestamp = 0, meta = [], ownerId = None, timeoutId = Some 0\<rparr>)],
               timers = [\<lparr>tid = 0, due = 5000, callback = Expire ''k''\<rparr>],
               nextTimerId = 1, now = 0, console = []\<rparr>)
   \<and> retryStart ''k'' None None None None None (initial 0)
       \<noteq> retryStart ''k'' None None (Some 0) None None (initial 0)
   \<and> await_timer 0 \<lparr>locks = [(''k'', \<lparr>timestamp = 0, meta = [], ownerId = None, timeoutId = Some 0\<rparr>)],
               timers = [\<lparr>tid = 0, due = 5000, callback = Expire ''k''\<rparr>],
               nextTimerId = 1, now = 0, console = []\<rparr>
     = Some \<lparr>locks = [], timers = [], nextTimerId = 1, now = 5000,
             console = [(5000, AutoReleased ''k'')]\<rparr>"
  by code_simp

theorem retryStart_default_timeout_witness:
  "reachable (snd (start ''k'' (Some 150) None None (initial 0)))
   \<and> retryStart ''k'' (Some 3) (Some 100) None None None (snd (start ''k'' (Some 150) None None (initial 0)))
       = Some (True,
           \<lparr>locks = [(''k'', \<lparr>timestamp = 300, meta = [], ownerId = None, timeoutId = Some 3\<rparr>)],
            timers = [\<lparr>tid = 3, due = 5300, callback = Expire ''k''\<rparr>],
            nextTimerId = 4, now = 300,
            console = [(0, AttemptFailed ''k'' 1 100), (100, AttemptFailed ''k'' 2 200),
                       (150, AutoReleased ''k'')]\<rparr>)
   \<and> (\<exists>l i T. map_get [(''k'', \<lparr>timestamp = 300, meta = [], ownerId = None, timeoutId = Some 3\<rparr>)] ''k'' = Some l
         \<and> timestamp l = 300 \<and> timeoutId l = Some i
         \<and> [\<lparr>tid = 3, due = 5300, callback = Expire ''k''\<rparr>]
             = T @ [\<lparr>tid = i, due = 300 + 5000, callback = Expire ''k''\<rparr>]
         \<and> \<not> isLocked ''k'' (fire i
             \<lparr>locks = [(''k'', \<lparr>timestamp = 300, meta = [], ownerId = None, timeoutId = Some 3\<rparr>)],
              timers = [\<lparr>tid = 3, due = 5300, callback = Expire ''k''\<rparr>],
              nextTimerId = 4, now = 300,
              console = [(0, AttemptFailed ''k'' 1 100), (100, AttemptFailed ''k'' 2 200),
                         (150, AutoReleased ''k'')]\<rparr>))
   \<and> \<not> isLocked ''k'' (initial 0) \<and> (0::int) < dflt 5 None
   \<and> (\<exists>s1. retryStart ''k'' None None None None None (initial 0) = Some (True, s1)
         \<and> held_handle ''k'' s1 = [0]
         \<and> timers s1 = [\<lparr>tid = 0, due = 5000, callback = Expire ''k''\<rparr>]
         \<and> \<not> isLocked ''k'' (fire 0 s1))"
proof -
  let ?s = "snd (start ''k'' (Some 150) None None (initial 0))"
  let ?s' = "\<lparr>locks = [(''k'', \<lparr>timestamp = 300, meta = [], ownerId = None, timeoutId = Some 3\<rparr>)],
            timers = [\<lparr>tid = 3, due = 5300, callback = Expire ''k''\<rparr>],
            nextTimerId = 4, now = 300,
            console = [(0, AttemptFailed ''k'' 1 100), (100, AttemptFailed ''k'' 2 200),
                       (150, AutoReleased ''k'')]\<rparr>"
  have held: "reachable ?s"
    by (rule r_start) (rule r_initial)
  have late: "retryStart ''k'' (Some 3) (Some 100) None None None ?s = Some (True, ?s')"
    by code_simp
  have free: "\<not> isLocked ''k'' (initial 0) \<and> (0::int) < dflt 5 None"
    by (simp add: isLocked_def map_has_def initial_def dflt_def)
  have r: "reachable (initial 0)"
    by (rule r_initial)
  have i: "nextTimerId (initial 0) = 0" "timers (initial 0) = []" "now (initial 0) = 0"
    by (simp_all add: initial_def)
  note third = retryStart_default_timeout [of "''k''" "Some 3" "Some 100" None None ?s ?s']
  from third late held
  have "\<exists>l i T. map_get (locks ?s') ''k'' = Some l \<and> timestamp l = now ?s' \<and> timeoutId l = Some i
         \<and> held_handle ''k'' ?s' = [i]
         \<and> timers ?s' = T @ [\<lparr>tid = i, due = now ?s' + 5000, callback = Expire ''k''\<rparr>]
         \<and> (reachable ?s \<longrightarrow> expiry_handles ''k'' ?s' = [i] \<and> \<not> isLocked ''k'' (fire i ?s'))"
    by blast
  with held
  have a: "\<exists>l i T. map_get [(''k'', \<lparr>timestamp = 300, meta = [], ownerId = None, timeoutId = Some 3\<rparr>)] ''k'' = Some l
         \<and> timestamp l = 300 \<and> timeoutId l = Some i
         \<and> [\<lparr>tid = 3, due = 5300, callback = Expire ''k''\<rparr>]
             = T @ [\<lparr>tid = i, due = 300 + 5000, callback = Expire ''k''\<rparr>]
         \<and> \<not> isLocked ''k'' (fire i ?s')"
    by simp blast
  from retryStart_default_timeout [of "''k''" None None None None "initial 0"] free r
  have "\<exists>s1. retryStart ''k'' None None None None None (initial 0) = Some (True, s1)
         \<and> held_handle ''k'' s1 = [nextTimerId (initial 0)]
         \<and> timers s1 = timers (initial 0) @
              [\<lparr>tid = nextTimerId (initial 0), due = now (initial 0) + 5000, callback = Expire ''k''\<rparr>]
         \<and> \<not> isLocked ''k'' (fire (nextTimerId (initial 0)) s1)"
    by blast
  then have b: "\<exists>s1. retryStart ''k'' None None None None None (initial 0) = Some (True, s1)
         \<and> held_handle ''k'' s1 = [0]
         \<and> timers s1 = [\<lparr>tid = 0, due = 5000, callback = Expire ''k''\<rparr>]
         \<and> \<not> isLocked ''k'' (fire 0 s1)"
    by (simp only: i append_Nil add_0)
  from held late a free b show ?thesis by blast
qed

text \<open>
  On a held key every failed attempt is followed by the console line and the sleep, whether
  or not another attempt follows: the loop body has no test of \<open>i\<close> against the last index.
\<close>

lemma retry_loop_held:
  assumes "isLocked k s" and "int i < attempts"
  shows "retry_loop k attempts d t md ow i s =
     (case sleep (d * 2 ^ i) (console_write (AttemptFailed k (i + 1) (d * 2 ^ i)) s) of
        None \<Rightarrow> None
      | Some s2 \<Rightarrow> retry_loop k attempts d t md ow (i + 1) s2)"
  using assms by (subst retry_loop.simps) (simp add: start_def isLocked_def)

text \<open>
  C4, at \<^verbatim>\<open>retryStart("k", 3, 100)\<close> while \<^verbatim>\<open>"k"\<close> is held without timeout, the clock
  starting at 0. The three attempts fail at 0, 100 and 300 ms. After the third one the
  loop still announces a retry in 400 ms and sleeps, so false is returned at 700 ms, not
  at 300 ms.
\<close>

theorem retryStart_held_key_trace:
  "retryStart ''k'' (Some 3) (Some 100) None None None (snd (start ''k'' None None None (initial 0)))
     = Some (False,
         \<lparr>locks = [(''k'', \<lparr>timestamp = 0, meta = [], ownerId = None, timeoutId = None\<rparr>)],
          timers = [], nextTimerId = 3, now = 700,
          console = [(0, AttemptFailed ''k'' 1 100), (100, AttemptFailed ''k'' 2 200),
                     (300, AttemptFailed ''k'' 3 400), (700, RetryExhausted ''k'' 3)]\<rparr>)"
  by code_simp

end
